theory Spec2Isabelle
  imports Main "HOL-Library.Word" "HOL-Library.Sublist"
begin

section \<open>Strings of the host language\<close>

text \<open>
  A string of the host language is a sequence of 16-bit code units; \<open>length\<close> counts code
  units, as \<^verbatim>\<open>query.length\<close> does. \<open>utf16\<close> writes a literal of Basic Latin as code units.
\<close>

type_synonym jsstring = "16 word list"

definition utf16 :: "string \<Rightarrow> jsstring" where
  "utf16 s = map of_char s"

text \<open>
  \<^verbatim>\<open>String.prototype.toLowerCase\<close> is a built-in of the host language, with a table of
  its own for the whole of Unicode and a rule that looks at the neighbours of a capital
  sigma. The statements about all strings take it as a parameter \<open>lower\<close>, any function
  on strings. \<open>latinLowerCase\<close> is the built-in on the strings made of the code units up
  to U+00FF, of U+0130 (the capital I with dot above, whose lower case is the two code
  units U+0069 U+0307) and of U+0307: there it maps code unit by code unit, A-Z and
  U+00C0 to U+00DE without the multiplication sign U+00D7 to the code unit 32 above. It
  is applied to such strings only; on any other code unit it is the identity and says
  nothing about the host.
\<close>

definition latinLowerUnit :: "16 word \<Rightarrow> jsstring" where
  "latinLowerUnit c =
     (if 0x41 \<le> c \<and> c \<le> 0x5A then [c + 0x20]
      else if 0xC0 \<le> c \<and> c \<le> 0xDE \<and> c \<noteq> 0xD7 then [c + 0x20]
      else if c = 0x130 then [0x69, 0x307]
      else [c])"

definition latinLowerCase :: "jsstring \<Rightarrow> jsstring" where
  "latinLowerCase s = concat (map latinLowerUnit s)"

text \<open>
  \<^verbatim>\<open>s.indexOf(q)\<close>: the least position at which \<open>q\<close> occurs in \<open>s\<close>, or \<open>-1\<close>. The empty
  string occurs at position 0 of every string.
\<close>

fun indexOfFrom :: "jsstring \<Rightarrow> jsstring \<Rightarrow> nat \<Rightarrow> int" where
  "indexOfFrom [] q i = (if q = [] then int i else - 1)"
| "indexOfFrom (c # s) q i =
     (if take (length q) (c # s) = q then int i else indexOfFrom s q (Suc i))"

definition indexOf :: "jsstring \<Rightarrow> jsstring \<Rightarrow> int" where
  "indexOf s q = indexOfFrom s q 0"

text \<open>
  \<^verbatim>\<open>s.substring(a, b)\<close> clamps both indices to \<open>0 .. length s\<close> and swaps them when the
  first is the larger; \<^verbatim>\<open>s.substring(a)\<close> runs to the end of the string.
\<close>

definition substring :: "jsstring \<Rightarrow> int \<Rightarrow> int \<Rightarrow> jsstring" where
  "substring s a b =
     (let n = int (length s);
          a' = min (max a 0) n;
          b' = min (max b 0) n;
          lo = min a' b';
          hi = max a' b'
      in take (nat (hi - lo)) (drop (nat lo) s))"

definition substringFrom :: "jsstring \<Rightarrow> int \<Rightarrow> jsstring" where
  "substringFrom s a = substring s a (int (length s))"

section \<open>highlightMatch\<close>

text \<open>
  The function returns either the text itself or a fragment of three children: the text
  before the match, the match inside \<^verbatim>\<open><strong>\<close>, and the text after it.
  \<open>highlightMatchBy\<close> is the body of the function with the built-in \<^verbatim>\<open>toLowerCase\<close> as
  the parameter \<open>lower\<close>; \<open>highlightMatch\<close> is the function on the strings of the
  repertoire of \<open>latinLowerCase\<close>.
\<close>

datatype node = Str jsstring | Strong jsstring

datatype rendered = Plain jsstring | Fragment "node list"

definition highlightMatchBy ::
  "(jsstring \<Rightarrow> jsstring) \<Rightarrow> jsstring \<Rightarrow> jsstring \<Rightarrow> rendered" where
  "highlightMatchBy lower text query =
     (let startIndex = indexOf (lower text) (lower query)
      in if startIndex = - 1 then Plain text
         else let endIndex = startIndex + int (length query)
              in Fragment [Str (substring text 0 startIndex),
                           Strong (substring text startIndex endIndex),
                           Str (substringFrom text endIndex)])"

definition highlightMatch :: "jsstring \<Rightarrow> jsstring \<Rightarrow> rendered" where
  "highlightMatch text query = highlightMatchBy latinLowerCase text query"

text \<open>
  \<open>occursAt q s k\<close>: the string \<open>q\<close> occurs in \<open>s\<close> at position \<open>k\<close>. \<open>firstAt q s k\<close>: it
  does, and at no position before \<open>k\<close>.
\<close>

definition occursAt :: "jsstring \<Rightarrow> jsstring \<Rightarrow> nat \<Rightarrow> bool" where
  "occursAt q s k = (k \<le> length s \<and> take (length q) (drop k s) = q)"


section \<open>The timers of the host\<close>

text \<open>
  \<^verbatim>\<open>setTimeout\<close> and \<^verbatim>\<open>clearTimeout\<close> belong to the host. The host keeps a clock in
  milliseconds, the next handle it will give out, and the timers that are pending: handle,
  due time and callback. A callback works on the state \<open>'s\<close> of the program; it cannot
  reach the timers. Delays are whole milliseconds.

  The host does not take every delay as it is. \<open>timerDelay\<close> is the rule of Node.js: a
  delay above 2147483647 or below 1 is replaced by 1. (A browser turns the delay into a
  32-bit integer instead and takes a negative one as 0: the same timers for the delays
  from 1 to 2147483647, and a delay of 2147483648 runs at once there too.)

  \<open>setTimeout\<close> registers a callback and returns a handle never given out before.
  \<open>clearTimeout\<close> drops the pending timer of that handle; on a handle that is not
  pending (fired, cleared before) it changes nothing, and it never throws.
\<close>

type_synonym handle = nat

record 's host =
  clock :: nat
  nextHandle :: handle
  timers :: "(handle \<times> nat \<times> ('s \<Rightarrow> 's)) list"

definition timerDelay :: "nat \<Rightarrow> nat" where
  "timerDelay delay = (if 1 \<le> delay \<and> delay \<le> 2147483647 then delay else 1)"

definition setTimeout :: "('s \<Rightarrow> 's) \<Rightarrow> nat \<Rightarrow> 's host \<Rightarrow> handle \<times> 's host" where
  "setTimeout callback delay h =
     (nextHandle h,
      h\<lparr>nextHandle := Suc (nextHandle h),
        timers := timers h @ [(nextHandle h, clock h + timerDelay delay, callback)]\<rparr>)"

definition clearTimeout :: "handle \<Rightarrow> 's host \<Rightarrow> 's host" where
  "clearTimeout t h = h\<lparr>timers := filter (\<lambda>entry. fst entry \<noteq> t) (timers h)\<rparr>"

text \<open>
  Time passing: the program returns to the event loop for \<open>dt\<close> milliseconds. Every timer
  due by then fires, in the order of the due times (registration order among equals), and
  is no longer pending. A timer is never run before its delay has elapsed.
\<close>

definition isDue :: "nat \<Rightarrow> handle \<times> nat \<times> ('s \<Rightarrow> 's) \<Rightarrow> bool" where
  "isDue t entry = (fst (snd entry) \<le> t)"

definition elapse :: "nat \<Rightarrow> 's host \<times> 's \<Rightarrow> 's host \<times> 's" where
  "elapse dt w =
     (let h = fst w;
          t = clock h + dt;
          ready = sort_key (\<lambda>entry. fst (snd entry)) (filter (isDue t) (timers h))
      in (h\<lparr>clock := t, timers := filter (\<lambda>entry. \<not> isDue t entry) (timers h)\<rparr>,
          fold (\<lambda>entry. snd (snd entry)) ready (snd w)))"

section \<open>debounce\<close>

text \<open>
  A call \<^verbatim>\<open>debounce(func, delay)\<close> allocates the variable \<open>timerId\<close>, initially null, and
  returns the trigger \<open>debouncedFunction\<close> with \<open>cancel\<close> attached. Both close over
  \<open>timerId\<close>: it is threaded through them together with the host. \<open>func\<close> and \<open>delay\<close>
  never change and are parameters. The callback handed to \<open>setTimeout\<close> is
  \<^verbatim>\<open>() => func(...args)\<close>, here \<open>func args\<close>.
\<close>

definition debouncedFunction ::
  "('a \<Rightarrow> 's \<Rightarrow> 's) \<Rightarrow> nat \<Rightarrow> 'a \<Rightarrow> handle option \<times> 's host \<Rightarrow> handle option \<times> 's host" where
  "debouncedFunction func delay args c =
     (let h = (case fst c of Some t \<Rightarrow> clearTimeout t (snd c) | None \<Rightarrow> snd c);
          (t, h') = setTimeout (func args) delay h
      in (Some t, h'))"

definition cancel :: "handle option \<times> 's host \<Rightarrow> handle option \<times> 's host" where
  "cancel c = (case fst c of Some t \<Rightarrow> (None, clearTimeout t (snd c)) | None \<Rightarrow> c)"

text \<open>
  One debounced function in its host: the variable \<open>timerId\<close>, the host, and the state
  \<open>target\<close> that the wrapped action works on. \<open>debounce\<close> gives the state right after the
  call: no handle, no timer pending.
\<close>

record 's debounced =
  timerId :: "handle option"
  env :: "'s host"
  target :: 's

definition debounce :: "('a \<Rightarrow> 's \<Rightarrow> 's) \<Rightarrow> nat \<Rightarrow> nat \<Rightarrow> 's \<Rightarrow> 's debounced" where
  "debounce func delay now s =
     \<lparr>timerId = None, env = \<lparr>clock = now, nextHandle = 1, timers = []\<rparr>, target = s\<rparr>"

text \<open>What a caller can do: call the trigger, call cancel, or let time pass.\<close>

datatype 'a call = Trigger 'a | Cancel | Wait nat

definition step :: "('a \<Rightarrow> 's \<Rightarrow> 's) \<Rightarrow> nat \<Rightarrow> 'a call \<Rightarrow> 's debounced \<Rightarrow> 's debounced" where
  "step func delay ev d =
     (case ev of
        Trigger args \<Rightarrow>
          (let (t, h) = debouncedFunction func delay args (timerId d, env d)
           in d\<lparr>timerId := t, env := h\<rparr>)
      | Cancel \<Rightarrow>
          (let (t, h) = cancel (timerId d, env d) in d\<lparr>timerId := t, env := h\<rparr>)
      | Wait dt \<Rightarrow>
          (let (h, s) = elapse dt (env d, target d) in d\<lparr>env := h, target := s\<rparr>))"

definition run ::
  "('a \<Rightarrow> 's \<Rightarrow> 's) \<Rightarrow> nat \<Rightarrow> 'a call list \<Rightarrow> 's debounced \<Rightarrow> 's debounced" where
  "run func delay evs d = fold (step func delay) evs d"

text \<open>
  An action that only records the arguments of each of its executions: with it, \<open>target\<close>
  is the list of the executions so far.
\<close>

definition logCall :: "'a \<Rightarrow> 'a list \<Rightarrow> 'a list" where
  "logCall args log = log @ [args]"

text \<open>
  \<open>owned\<close>: every timer pending in the host is the one \<open>timerId\<close> names. It holds after
  \<open>debounce\<close> and is kept by every step. \<open>armed\<close>: exactly one timer is pending, set just
  now, to run the callback \<open>cb\<close> after \<open>T\<close>. \<open>burst\<close>: further trigger calls, each after a
  gap.
\<close>

definition owned :: "'s debounced \<Rightarrow> bool" where
  "owned d = list_all (\<lambda>entry. timerId d = Some (fst entry)) (timers (env d))"

definition armed :: "nat \<Rightarrow> ('s \<Rightarrow> 's) \<Rightarrow> 's \<Rightarrow> 's debounced \<Rightarrow> bool" where
  "armed T cb s d =
     (\<exists>t. timers (env d) = [(t, clock (env d) + T, cb)] \<and> timerId d = Some t \<and> target d = s)"

definition burst :: "(nat \<times> 'a) list \<Rightarrow> 'a call list" where
  "burst rest = concat (map (\<lambda>(gap, args). [Wait gap, Trigger args]) rest)"

definition isTrigger :: "'a call \<Rightarrow> bool" where
  "isTrigger ev = (case ev of Trigger _ \<Rightarrow> True | _ \<Rightarrow> False)"

section \<open>useFetchOnQueryChange\<close>

text \<open>
  The four state cells of the hook, with the setters \<^verbatim>\<open>useState\<close> returns. \<open>None\<close> is
  null.
\<close>

record ('d, 'e) visible =
  data :: "'d option"
  loading :: bool
  loaded :: bool
  error :: "'e option"

definition setData :: "'d option \<Rightarrow> ('d, 'e) visible \<Rightarrow> ('d, 'e) visible" where
  "setData v vs = vs\<lparr>data := v\<rparr>"

definition setLoading :: "bool \<Rightarrow> ('d, 'e) visible \<Rightarrow> ('d, 'e) visible" where
  "setLoading v vs = vs\<lparr>loading := v\<rparr>"

definition setLoaded :: "bool \<Rightarrow> ('d, 'e) visible \<Rightarrow> ('d, 'e) visible" where
  "setLoaded v vs = vs\<lparr>loaded := v\<rparr>"

definition setError :: "'e option \<Rightarrow> ('d, 'e) visible \<Rightarrow> ('d, 'e) visible" where
  "setError v vs = vs\<lparr>error := v\<rparr>"

text \<open>
  \<^verbatim>\<open>fetchData\<close> is supplied by the caller. The promise it returns settles later, in one of
  two ways.
\<close>

datatype ('d, 'e) outcome = Resolved 'd | Rejected 'e

text \<open>
  What the action works on: the cells, and what is observed of its run. \<open>started\<close> lists
  the query of each execution of the action body, \<open>requests\<close> the argument of each call of
  \<^verbatim>\<open>fetchData\<close>. \<open>awaiting\<close> holds the executions suspended at \<^verbatim>\<open>await\<close>, each with its
  query and with whether the query string has changed since. \<open>settled\<close> lists the
  executions that resumed, with that flag and the outcome; \<open>escaped\<close> lists the errors that
  left the action uncaught.
\<close>

record ('d, 'e) app =
  cells :: "('d, 'e) visible"
  started :: "jsstring list"
  requests :: "jsstring list"
  awaiting :: "(jsstring \<times> bool) list"
  settled :: "(bool \<times> ('d, 'e) outcome) list"
  escaped :: "'e list"

text \<open>
  A statement completes normally or by throwing: a pair of the pending error, if any, and
  the state. \<^verbatim>\<open>try { } catch (err) { } finally { }\<close>: the handler runs when the body
  throws, the finalizer always; an error of the finalizer replaces the pending one.
\<close>

type_synonym ('e, 's) completion = "'e option \<times> 's"

definition tryCatchFinally ::
  "('s \<Rightarrow> ('e, 's) completion) \<Rightarrow> ('e \<Rightarrow> 's \<Rightarrow> ('e, 's) completion) \<Rightarrow>
   ('s \<Rightarrow> ('e, 's) completion) \<Rightarrow> 's \<Rightarrow> ('e, 's) completion" where
  "tryCatchFinally body handler finalizer s =
     (let (thrown, s1) = body s;
          (pending, s2) = (case thrown of None \<Rightarrow> (None, s1) | Some err \<Rightarrow> handler err s1);
          (late, s3) = finalizer s2
      in (case late of Some err \<Rightarrow> (Some err, s3) | None \<Rightarrow> (pending, s3)))"

text \<open>
  The action passed to \<open>debounce\<close> is an async function closing over \<open>query\<close>. It runs in
  two parts. \<open>enterAction\<close> is the part up to the \<^verbatim>\<open>return\<close> of the empty query or, for any
  other query, up to the \<^verbatim>\<open>await\<close>, with \<^verbatim>\<open>fetchData(query)\<close> called. \<open>resumeAction\<close> is the
  rest, run when the promise has settled: the \<^verbatim>\<open>await\<close> throws on a rejection, inside the
  \<^verbatim>\<open>try\<close>.
\<close>

definition enterAction :: "jsstring \<Rightarrow> ('d, 'e) app \<Rightarrow> ('d, 'e) app" where
  "enterAction query a =
     (if query = [] then
        a\<lparr>cells := setLoading False (setData None (setLoaded False (cells a))),
          started := started a @ [query]\<rparr>
      else
        a\<lparr>cells := setData None (setLoading True (setLoaded False (cells a))),
          started := started a @ [query],
          requests := requests a @ [query],
          awaiting := awaiting a @ [(query, False)]\<rparr>)"

definition resumeAction ::
  "('d, 'e) outcome \<Rightarrow> ('d, 'e) visible \<Rightarrow> ('e, ('d, 'e) visible) completion" where
  "resumeAction result =
     tryCatchFinally
       (\<lambda>vs. case result of
                Rejected err \<Rightarrow> (Some err, vs)
              | Resolved response \<Rightarrow> (None, setError None (setData (Some response) vs)))
       (\<lambda>err vs. (None, setError (Some err) vs))
       (\<lambda>vs. (None, setLoaded True (setLoading False vs)))"

text \<open>
  The promise of the \<open>i\<close>-th suspended execution settles and the execution resumes. Any
  suspended execution may be the next to resume.
\<close>

definition settle :: "nat \<Rightarrow> ('d, 'e) outcome \<Rightarrow> ('d, 'e) app \<Rightarrow> ('d, 'e) app" where
  "settle i result a =
     (if i < length (awaiting a) then
        (let (thrown, vs) = resumeAction result (cells a)
         in a\<lparr>cells := vs,
              awaiting := take i (awaiting a) @ drop (Suc i) (awaiting a),
              settled := settled a @ [(snd (awaiting a ! i), result)],
              escaped := escaped a @ (case thrown of None \<Rightarrow> [] | Some err \<Rightarrow> [err])\<rparr>)
      else a)"

text \<open>
  A change of the query string supersedes every execution still suspended. Only the flag
  kept for the statements changes; the code keeps no such mark.
\<close>

definition supersede :: "('d, 'e) app \<Rightarrow> ('d, 'e) app" where
  "supersede a = a\<lparr>awaiting := map (\<lambda>p. (fst p, True)) (awaiting a)\<rparr>"

text \<open>
  The hook between renders: \<open>deps\<close> is the query the effect last ran for (none before the
  first render), \<open>debouncedFetch\<close> the \<open>timerId\<close> of the debounced function that run made.
  A render with the same query leaves the effect alone. A render with another query runs
  the cleanup of the previous effect, which is \<open>cancel\<close>, and then the effect: a new
  debounced function around the action for this query, called at once. A render and the
  effect it brings are one step: no time passes between them.
\<close>

record ('d, 'e) hook =
  deps :: "jsstring option"
  debouncedFetch :: "handle option"
  loop :: "('d, 'e) app host"
  page :: "('d, 'e) app"

definition useFetchOnQueryChange ::
  "jsstring \<Rightarrow> nat \<Rightarrow> ('d, 'e) hook \<Rightarrow> ('d, 'e) hook" where
  "useFetchOnQueryChange query delay k =
     (if deps k = Some query then k
      else
        let h0 = (case deps k of
                    None \<Rightarrow> loop k
                  | Some _ \<Rightarrow> snd (cancel (debouncedFetch k, loop k)));
            (t, h1) = debouncedFunction (\<lambda>_ :: unit. enterAction query) delay () (None, h0)
        in k\<lparr>deps := Some query, debouncedFetch := t, loop := h1, page := supersede (page k)\<rparr>)"

text \<open>
  What happens to a mounted hook: a render with a query string, time passing, a promise
  settling. \<open>mounted\<close> is the hook before its first render, with the initial cells.
\<close>

datatype ('d, 'e) event = Query jsstring | Tick nat | Settle nat "('d, 'e) outcome"

definition hookStep :: "nat \<Rightarrow> ('d, 'e) event \<Rightarrow> ('d, 'e) hook \<Rightarrow> ('d, 'e) hook" where
  "hookStep delay ev k =
     (case ev of
        Query q \<Rightarrow> useFetchOnQueryChange q delay k
      | Tick dt \<Rightarrow> (let (h, a) = elapse dt (loop k, page k) in k\<lparr>loop := h, page := a\<rparr>)
      | Settle i result \<Rightarrow> k\<lparr>page := settle i result (page k)\<rparr>)"

definition hookRun :: "nat \<Rightarrow> ('d, 'e) event list \<Rightarrow> ('d, 'e) hook \<Rightarrow> ('d, 'e) hook" where
  "hookRun delay evs k = fold (hookStep delay) evs k"

definition mounted :: "('d, 'e) hook" where
  "mounted =
     \<lparr>deps = None, debouncedFetch = None,
      loop = \<lparr>clock = 0, nextHandle = 1, timers = []\<rparr>,
      page = \<lparr>cells = \<lparr>data = None, loading = False, loaded = False, error = None\<rparr>,
              started = [], requests = [], awaiting = [], settled = [], escaped = []\<rparr>\<rparr>"

text \<open>
  \<open>tidy\<close>: at most one timer is pending, the one of the last effect, and its callback is
  the action for the current query. \<open>elapsed\<close> adds up the time that passes in a list of
  events.
\<close>

definition tidy :: "('d, 'e) hook \<Rightarrow> bool" where
  "tidy k =
     (timers (loop k) = [] \<or>
      (\<exists>t due q. timers (loop k) = [(t, due, enterAction q)] \<and>
                  debouncedFetch k = Some t \<and> deps k = Some q))"


definition isResolve :: "('d, 'e) event \<Rightarrow> bool" where
  "isResolve ev = (case ev of Settle _ (Resolved _) \<Rightarrow> True | _ \<Rightarrow> False)"


text \<open>
  The cells reflect an outcome when they hold the pair of its cycle: the response and no
  error, or no data and the error. \<open>latest\<close> is the outcome of the execution that resumed
  last, \<open>honoured\<close> the outcome of the last one that resumed without having been
  superseded. \<open>exclusive\<close>: \<open>loading\<close> and \<open>loaded\<close> are not both true. \<open>staleFree\<close>: when
  \<open>loaded\<close> is true, the cells reflect the honoured outcome.
\<close>

definition reflects :: "('d, 'e) outcome \<Rightarrow> ('d, 'e) visible \<Rightarrow> bool" where
  "reflects result vs =
     (case result of
        Resolved response \<Rightarrow> data vs = Some response \<and> error vs = None
      | Rejected err \<Rightarrow> data vs = None \<and> error vs = Some err)"

definition latest :: "('d, 'e) app \<Rightarrow> ('d, 'e) outcome option" where
  "latest a = (if settled a = [] then None else Some (snd (last (settled a))))"

definition honoured :: "('d, 'e) app \<Rightarrow> ('d, 'e) outcome option" where
  "honoured a = latest (a\<lparr>settled := filter (\<lambda>p. \<not> fst p) (settled a)\<rparr>)"

definition mirrors :: "('d, 'e) outcome option \<Rightarrow> ('d, 'e) visible \<Rightarrow> bool" where
  "mirrors r vs = (case r of None \<Rightarrow> False | Some result \<Rightarrow> reflects result vs)"

definition exclusive :: "('d, 'e) visible \<Rightarrow> bool" where
  "exclusive vs = (\<not> (loading vs \<and> loaded vs))"

definition staleFree :: "('d, 'e) app \<Rightarrow> bool" where
  "staleFree a = (if loaded (cells a) then mirrors (honoured a) (cells a) else True)"

text \<open>
  What the code keeps instead. \<open>lastResponse\<close> is the response of the execution that
  resolved last, if any did. The cells follow an outcome, superseded or not, when they
  hold the response and no error, or the error together with data that is null or that
  last response: a rejection leaves \<open>data\<close> as it finds it. \<open>accounted\<close>: some execution
  has resumed and the cells follow the latest outcome.
\<close>

fun lastResolved :: "(bool \<times> ('d, 'e) outcome) list \<Rightarrow> 'd option" where
  "lastResolved [] = None"
| "lastResolved ((_, Resolved response) # older) = Some response"
| "lastResolved ((_, Rejected _) # older) = lastResolved older"

definition lastResponse :: "('d, 'e) app \<Rightarrow> 'd option" where
  "lastResponse a = lastResolved (rev (settled a))"

definition follows :: "('d, 'e) outcome \<Rightarrow> ('d, 'e) app \<Rightarrow> bool" where
  "follows result a =
     (case result of
        Resolved response \<Rightarrow> data (cells a) = Some response \<and> error (cells a) = None
      | Rejected err \<Rightarrow>
          error (cells a) = Some err
          \<and> (data (cells a) = None \<or> data (cells a) = lastResponse a))"

definition accounted :: "('d, 'e) app \<Rightarrow> bool" where
  "accounted a = (case latest a of None \<Rightarrow> False | Some result \<Rightarrow> follows result a)"

definition coherent :: "('d, 'e) app \<Rightarrow> bool" where
  "coherent a =
     (exclusive (cells a) \<and> (loaded (cells a) \<longrightarrow> accounted a)
      \<and> (data (cells a) = None \<or> data (cells a) = lastResponse a)
      \<and> escaped a = [])"

section \<open>Properties of highlightMatch\<close>

lemmas highlight_eval =
  highlightMatch_def highlightMatchBy_def utf16_def indexOf_def latinLowerCase_def
  latinLowerUnit_def substring_def substringFrom_def

text \<open>
  C8. On the text "Apple" the query "ap" matches without regard to case: the fragment
  emphasizes "Ap", in the casing of the text, after an empty prefix and before the
  unemphasized "ple". The query "xyz" does not occur, and the text comes back as it is.
\<close>

theorem highlightMatch_Apple:
  "highlightMatch (utf16 ''Apple'') (utf16 ''ap'')
     = Fragment [Str [], Strong (utf16 ''Ap''), Str (utf16 ''ple'')]
   \<and> highlightMatch (utf16 ''Apple'') (utf16 ''xyz'') = Plain (utf16 ''Apple'')"
  by (simp add: highlight_eval)

subsection \<open>indexOf finds the first occurrence\<close>

lemma occursAt_Cons: "occursAt q (c # s) (Suc k) = occursAt q s k"
  by (simp add: occursAt_def)


lemma sublist_occursAt: "sublist q s \<longleftrightarrow> (\<exists>k. occursAt q s k)"
proof
  assume "sublist q s"
  then obtain ps ss where "s = ps @ q @ ss" by (auto simp: sublist_def)
  then have "occursAt q s (length ps)" by (simp add: occursAt_def)
  then show "\<exists>k. occursAt q s k" ..
next
  assume "\<exists>k. occursAt q s k"
  then obtain k where k: "occursAt q s k" ..
  then have "take (length q) (drop k s) = q" by (simp add: occursAt_def)
  then have "drop k s = q @ drop (length q) (drop k s)"
    by (metis append_take_drop_id)
  then have "s = take k s @ q @ drop (length q) (drop k s)"
    by (metis append_take_drop_id)
  then show "sublist q s" unfolding sublist_def by blast
qed

lemma indexOfFrom_none: "indexOfFrom s q i = - 1 \<longleftrightarrow> (\<forall>k. \<not> occursAt q s k)"
proof (induction s arbitrary: i)
  case Nil
  show ?case by (auto simp: occursAt_def)
next
  case (Cons c s)
  show ?case
  proof (cases "take (length q) (c # s) = q")
    case True
    then have "occursAt q (c # s) 0" by (simp add: occursAt_def)
    with True show ?thesis by auto
  next
    case False
    then have "\<not> occursAt q (c # s) 0" by (simp add: occursAt_def)
    then have "(\<forall>k. \<not> occursAt q (c # s) k) \<longleftrightarrow> (\<forall>k. \<not> occursAt q s k)"
      by (metis occursAt_Cons not0_implies_Suc)
    with False Cons.IH[of "Suc i"] show ?thesis by simp
  qed
qed



lemma indexOf_none: "indexOf s q = - 1 \<longleftrightarrow> \<not> sublist q s"
  by (simp add: indexOf_def indexOfFrom_none sublist_occursAt)


subsection \<open>The three pieces cut by substring\<close>



subsection \<open>The split of the text\<close>







section \<open>Properties of debounce\<close>

lemmas deb_simps =
  Let_def step_def debouncedFunction_def cancel_def setTimeout_def clearTimeout_def
  elapse_def isDue_def


lemma timerDelay_ge: "D \<le> 2147483647 \<Longrightarrow> D \<le> timerDelay D"
  by (simp add: timerDelay_def)

lemma timerDelay_id: "1 \<le> D \<Longrightarrow> D \<le> 2147483647 \<Longrightarrow> timerDelay D = D"
  by (simp add: timerDelay_def)

lemma run_Nil: "run func D [] d = d"
  by (simp add: run_def)

lemma run_Cons: "run func D (ev # evs) d = run func D evs (step func D ev d)"
  by (simp add: run_def)

lemma run_append: "run func D (xs @ ys) d = run func D ys (run func D xs d)"
  by (simp add: run_def)

subsection \<open>Single steps\<close>

lemma owned_None: "owned d \<Longrightarrow> timerId d = None \<Longrightarrow> timers (env d) = []"
  by (cases "timers (env d)") (simp_all add: owned_def)

lemma owned_Some:
  "owned d \<Longrightarrow> timerId d = Some t \<Longrightarrow> filter (\<lambda>entry. fst entry \<noteq> t) (timers (env d)) = []"
  by (simp add: owned_def list_all_iff filter_empty_conv)

lemma step_Trigger:
  assumes "owned d"
  shows "step func D (Trigger a) d =
     d\<lparr>timerId := Some (nextHandle (env d)),
       env := (env d)\<lparr>nextHandle := Suc (nextHandle (env d)),
                     timers := [(nextHandle (env d), clock (env d) + timerDelay D, func a)]\<rparr>\<rparr>"
proof (cases "timerId d")
  case None
  with assms have "timers (env d) = []" by (rule owned_None)
  with None show ?thesis by (simp add: deb_simps)
next
  case (Some t)
  with assms have "filter (\<lambda>entry. fst entry \<noteq> t) (timers (env d)) = []" by (rule owned_Some)
  with Some show ?thesis by (simp add: deb_simps)
qed

lemma step_Cancel:
  assumes "owned d"
  shows "step func D Cancel d = d\<lparr>timerId := None, env := (env d)\<lparr>timers := []\<rparr>\<rparr>"
proof (cases "timerId d")
  case None
  with assms have "timers (env d) = []" by (rule owned_None)
  with None show ?thesis by (simp add: deb_simps)
next
  case (Some t)
  with assms have "filter (\<lambda>entry. fst entry \<noteq> t) (timers (env d)) = []" by (rule owned_Some)
  with Some show ?thesis by (simp add: deb_simps)
qed

lemma step_Wait_timerId: "timerId (step func D (Wait w) d) = timerId d"
  by (simp add: deb_simps)

lemma step_Wait_idle:
  "timers (env d) = [] \<Longrightarrow>
   step func D (Wait w) d = d\<lparr>env := (env d)\<lparr>clock := clock (env d) + w\<rparr>\<rparr>"
  by (simp add: deb_simps)

lemma step_Wait_one:
  "timers (env d) = [(t, due, cb)] \<Longrightarrow>
   step func D (Wait w) d =
     (if due \<le> clock (env d) + w
      then d\<lparr>env := (env d)\<lparr>clock := clock (env d) + w, timers := []\<rparr>, target := cb (target d)\<rparr>
      else d\<lparr>env := (env d)\<lparr>clock := clock (env d) + w\<rparr>\<rparr>)"
  by (simp add: deb_simps)

subsection \<open>Every reachable state is owned\<close>

lemma owned_step: "owned d \<Longrightarrow> owned (step func D ev d)"
proof (cases ev)
  case (Trigger a)
  assume "owned d"
  then show ?thesis unfolding Trigger by (simp add: step_Trigger owned_def)
next
  case Cancel
  assume "owned d"
  then show ?thesis unfolding Cancel by (simp add: step_Cancel owned_def)
next
  case (Wait w)
  assume "owned d"
  then show ?thesis unfolding Wait by (simp add: deb_simps owned_def list_all_iff)
qed

lemma owned_run: "owned d \<Longrightarrow> owned (run func D evs d)"
  by (induction evs arbitrary: d) (simp_all add: run_def owned_step)

lemma owned_debounce: "owned (debounce func D now s)"
  by (simp add: owned_def debounce_def)

lemma owned_reachable: "owned (run func D evs (debounce func D now s))"
  using owned_debounce by (rule owned_run)

subsection \<open>An armed timer through a burst of calls\<close>

lemma armed_Trigger:
  "owned d \<Longrightarrow> armed (timerDelay D) (func a) (target d) (step func D (Trigger a) d)"
  by (simp add: step_Trigger armed_def)

lemma armed_burst:
  assumes "armed (timerDelay D) (func a) s d" and "list_all (\<lambda>p. fst p < timerDelay D) rest"
  shows "armed (timerDelay D) (func (last (a # map snd rest))) s (run func D (burst rest) d)"
  using assms
proof (induction rest arbitrary: a d)
  case Nil
  then show ?case by (simp add: burst_def run_Nil)
next
  case (Cons p rest)
  obtain g b where p: "p = (g, b)" by (cases p)
  from Cons.prems(2) p have g: "g < timerDelay D"
    and rest: "list_all (\<lambda>p. fst p < timerDelay D) rest" by simp_all
  from Cons.prems(1) obtain t
    where t: "timers (env d) = [(t, clock (env d) + timerDelay D, func a)]"
      "timerId d = Some t" "target d = s" by (auto simp: armed_def)
  let ?d1 = "step func D (Wait g) d"
  from t g have d1: "?d1 = d\<lparr>env := (env d)\<lparr>clock := clock (env d) + g\<rparr>\<rparr>"
    by (simp add: step_Wait_one)
  from t have "owned ?d1" unfolding d1 by (simp add: owned_def)
  then have "armed (timerDelay D) (func b) (target ?d1) (step func D (Trigger b) ?d1)"
    by (rule armed_Trigger)
  moreover have "target ?d1 = s" unfolding d1 using t by simp
  ultimately have "armed (timerDelay D) (func b) s (step func D (Trigger b) ?d1)" by simp
  from Cons.IH[OF this rest]
  show ?case using p by (simp add: burst_def run_Cons)
qed

lemma armed_Wait:
  assumes "armed T cb s d"
  shows "target (step func D (Wait w) d) = (if T \<le> w then cb s else s)"
    and "T \<le> w \<Longrightarrow> timers (env (step func D (Wait w) d)) = []"
  using assms by (auto simp: armed_def step_Wait_one)

lemma armed_Wait_fired:
  assumes "armed T cb s d" and "T \<le> w"
  shows "step func D (Wait w) d
           = d\<lparr>env := (env d)\<lparr>clock := clock (env d) + w, timers := []\<rparr>, target := cb s\<rparr>"
proof -
  from assms(1) obtain t where t: "timers (env d) = [(t, clock (env d) + T, cb)]"
    and s: "target d = s" by (auto simp: armed_def)
  from step_Wait_one[OF t, of func D w] assms(2) s show ?thesis by simp
qed

lemma idle_run:
  assumes "timers (env d) = []" and "list_all (\<lambda>ev. \<not> isTrigger ev) evs"
  shows "target (run func D evs d) = target d \<and> timers (env (run func D evs d)) = []"
  using assms
proof (induction evs arbitrary: d)
  case Nil
  then show ?case by (simp add: run_Nil)
next
  case (Cons ev evs)
  have "target (step func D ev d) = target d \<and> timers (env (step func D ev d)) = []"
  proof (cases ev)
    case (Trigger a)
    with Cons.prems(2) show ?thesis by (simp add: isTrigger_def)
  next
    case Cancel
    with Cons.prems(1) show ?thesis by (cases "timerId d") (simp_all add: deb_simps)
  next
    case (Wait w)
    with Cons.prems(1) show ?thesis by (simp add: step_Wait_idle)
  qed
  with Cons.IH[of "step func D ev d"] Cons.prems(2) show ?case by (simp add: run_Cons)
qed

lemma gaps_below:
  assumes "D \<le> 2147483647" and "list_all (\<lambda>p. fst p < D) rest"
  shows "list_all (\<lambda>p. fst p < timerDelay D) rest"
proof -
  from assms(1) have "D \<le> timerDelay D" by (rule timerDelay_ge)
  with assms(2) show ?thesis by (auto simp: list_all_iff)
qed

subsection \<open>Bursts, cancel, and the handle after firing\<close>

text \<open>
  C1, as far as it holds: for a delay \<open>D\<close> of at most 2147483647, which the host runs as
  \<open>timerDelay D\<close> (\<open>D\<close> itself from 1 on). Take a debounced function in any owned state, a
  first trigger call with arguments \<open>a\<close>, and further calls \<open>rest\<close>, each less than \<open>D\<close>
  after the one before. A wait of \<open>w\<close> after the last call runs the action exactly when
  the delay has passed, once, on the arguments of the last call: \<open>target\<close> is then the
  state before with \<open>func\<close> applied to them one time, and is unchanged before that. Once it
  has run, no wait and no cancel runs it again. With no trigger call at all after
  \<open>debounce\<close>, the action never runs.
\<close>

theorem debounce_burst_once:
  assumes "owned d" and "D \<le> 2147483647" and "list_all (\<lambda>p. fst p < D) rest"
    and "list_all (\<lambda>ev. \<not> isTrigger ev) later"
  shows "target (run func D (Trigger a # burst rest @ [Wait w]) d)
           = (if timerDelay D \<le> w then func (last (a # map snd rest)) (target d) else target d)
         \<and> (timerDelay D \<le> w \<longrightarrow>
              target (run func D (Trigger a # burst rest @ Wait w # later) d)
                = func (last (a # map snd rest)) (target d))
         \<and> (1 \<le> D \<longrightarrow> timerDelay D = D)
         \<and> target (run func D later (debounce func D now s)) = s"
proof (intro conjI impI)
  let ?d = "run func D (burst rest) (step func D (Trigger a) d)"
  have gaps: "list_all (\<lambda>p. fst p < timerDelay D) rest"
    using assms(2,3) by (rule gaps_below)
  have "armed (timerDelay D) (func a) (target d) (step func D (Trigger a) d)"
    using assms(1) by (rule armed_Trigger)
  then have armed: "armed (timerDelay D) (func (last (a # map snd rest))) (target d) ?d"
    using gaps by (rule armed_burst)
  show "target (run func D (Trigger a # burst rest @ [Wait w]) d)
           = (if timerDelay D \<le> w then func (last (a # map snd rest)) (target d) else target d)"
    using armed by (simp add: run_Cons run_append run_Nil armed_Wait(1))
  show "target (run func D (Trigger a # burst rest @ Wait w # later) d)
          = func (last (a # map snd rest)) (target d)" if "timerDelay D \<le> w"
  proof -
    let ?f = "step func D (Wait w) ?d"
    have "timers (env ?f) = []" using armed that by (rule armed_Wait(2))
    then have "target (run func D later ?f) = target ?f"
      using assms(4) idle_run by blast
    also have "target ?f = func (last (a # map snd rest)) (target d)"
      using armed that by (simp add: armed_Wait(1))
    finally show ?thesis by (simp add: run_Cons run_append)
  qed
  show "timerDelay D = D" if "1 \<le> D" using that assms(2) by (rule timerDelay_id)
  have "timers (env (debounce func D now s)) = []" by (simp add: debounce_def)
  then have "target (run func D later (debounce func D now s)) = target (debounce func D now s)"
    using assms(4) idle_run by blast
  then show "target (run func D later (debounce func D now s)) = s" by (simp add: debounce_def)
qed

theorem debounce_burst_once_witness:
  "owned (debounce logCall 400 0 ([] :: nat list))
   \<and> (400::nat) \<le> 2147483647
   \<and> list_all (\<lambda>p. fst p < (400::nat)) [(100, 2::nat), (399, 3)]
   \<and> list_all (\<lambda>ev. \<not> isTrigger ev) [Wait 1000, Cancel :: nat call]
   \<and> timerDelay 400 \<le> 400 \<and> (1::nat) \<le> 400
   \<and> target (run logCall 400 (Trigger 1 # burst [(100, 2), (399, 3)] @ [Wait 400])
        (debounce logCall 400 0 [])) = [3::nat]
   \<and> target (run logCall 400
        (Trigger 1 # burst [(100, 2), (399, 3)] @ Wait 400 # [Wait 1000, Cancel])
        (debounce logCall 400 0 [])) = [3::nat]
   \<and> target (run logCall 400 [Wait 1000, Cancel :: nat call] (debounce logCall 400 0 [])) = []"
  using debounce_burst_once [of "debounce logCall 400 0 ([] :: nat list)" 400
      "[(100, 2), (399, 3)]" "[Wait 1000, Cancel]" logCall 1 400 0 "[]"]
  by (simp add: owned_def debounce_def isTrigger_def logCall_def timerDelay_def)

text \<open>
  C1 as it is written, for every delay, fails at a delay of 2147483648: the host runs it
  as 1. Two calls 50 ms apart are less than the delay apart, and the timer of the first
  has fired before the second call: the action runs twice, on the arguments of each.
\<close>

theorem debounce_huge_delay_twice:
  "(50::nat) < 2147483648
   \<and> target (run logCall 2147483648 [Trigger (1::nat), Wait 50, Trigger 2, Wait 2147483648]
        (debounce logCall 2147483648 0 [])) = [1, 2]"
  by (simp add: run_def deb_simps debounce_def logCall_def timerDelay_def)

text \<open>
  C7, as far as it holds: for a delay \<open>D\<close> of at most 2147483647. After a trigger call, a
  cancel that comes less than \<open>D\<close> later leaves no handle and no pending timer, and the
  action of that call never runs: not by then, and not in any later sequence of waits and
  cancels. A cancel while no timer is pending changes neither the host nor the state the
  action works on, and with \<open>timerId\<close> null it changes nothing at all. \<open>cancel\<close> has no
  failing branch: it tests \<open>timerId\<close> and calls \<open>clearTimeout\<close>, which accepts every
  handle.
\<close>

theorem cancel_before_delay:
  assumes "owned d" and "D \<le> 2147483647" and "g < D"
    and "list_all (\<lambda>ev. \<not> isTrigger ev) later"
  shows "timerId (run func D [Trigger a, Wait g, Cancel] d) = None
         \<and> timers (env (run func D [Trigger a, Wait g, Cancel] d)) = []
         \<and> target (run func D [Trigger a, Wait g, Cancel] d) = target d
         \<and> target (run func D ([Trigger a, Wait g, Cancel] @ later) d) = target d
         \<and> (timers (env d) = [] \<longrightarrow>
              env (step func D Cancel d) = env d \<and> target (step func D Cancel d) = target d
              \<and> timerId (step func D Cancel d) = None)
         \<and> (timerId d = None \<longrightarrow> step func D Cancel d = d)"
proof (intro conjI impI)
  let ?d1 = "step func D (Trigger a) d"
  let ?d2 = "step func D (Wait g) ?d1"
  let ?d3 = "step func D Cancel ?d2"
  have r: "run func D [Trigger a, Wait g, Cancel] d = ?d3" by (simp add: run_Cons run_Nil)
  have o2: "owned ?d2" using assms(1) by (intro owned_step)
  have early: "\<not> timerDelay D \<le> g" using timerDelay_ge[OF assms(2)] assms(3) by simp
  have "armed (timerDelay D) (func a) (target d) ?d1" using assms(1) by (rule armed_Trigger)
  then have t2: "target ?d2 = target d" using early by (simp add: armed_Wait(1))
  have d3: "?d3 = ?d2\<lparr>timerId := None, env := (env ?d2)\<lparr>timers := []\<rparr>\<rparr>"
    using o2 by (rule step_Cancel)
  show "timerId (run func D [Trigger a, Wait g, Cancel] d) = None"
    unfolding r by (subst d3) simp
  show e3: "timers (env (run func D [Trigger a, Wait g, Cancel] d)) = []"
    unfolding r by (subst d3) simp
  have t3: "target ?d3 = target d" by (subst d3) (simp add: t2)
  then show "target (run func D [Trigger a, Wait g, Cancel] d) = target d"
    unfolding r .
  have "target (run func D later ?d3) = target ?d3"
    using e3 assms(4) idle_run unfolding r by blast
  then show "target (run func D ([Trigger a, Wait g, Cancel] @ later) d) = target d"
    unfolding run_append r by (simp only: t3)
  have c: "step func D Cancel d = d\<lparr>timerId := None, env := (env d)\<lparr>timers := []\<rparr>\<rparr>"
    using assms(1) by (rule step_Cancel)
  show "env (step func D Cancel d) = env d" if "timers (env d) = []"
    using that by (simp add: c)
  show "target (step func D Cancel d) = target d" by (simp add: c)
  show "timerId (step func D Cancel d) = None" by (simp add: c)
  show "step func D Cancel d = d" if "timerId d = None"
    using that by (simp add: step_def cancel_def)
qed

theorem cancel_before_delay_witness:
  "owned (debounce logCall 400 0 ([] :: nat list)) \<and> (400::nat) \<le> 2147483647
   \<and> (399::nat) < 400
   \<and> list_all (\<lambda>ev. \<not> isTrigger ev) [Wait 1000, Cancel :: nat call]
   \<and> timers (env (debounce logCall 400 0 ([] :: nat list))) = []
   \<and> timerId (debounce logCall 400 0 ([] :: nat list)) = None
   \<and> timerId (run logCall 400 [Trigger (7::nat), Wait 399, Cancel] (debounce logCall 400 0 []))
       = None
   \<and> target (run logCall 400 ([Trigger (7::nat), Wait 399, Cancel] @ [Wait 1000, Cancel])
        (debounce logCall 400 0 [])) = []
   \<and> step logCall 400 Cancel (debounce logCall 400 0 ([] :: nat list))
       = debounce logCall 400 0 []"
  using cancel_before_delay [of "debounce logCall 400 0 ([] :: nat list)" 400 399
      "[Wait 1000, Cancel]" logCall 7]
  by (simp add: owned_def debounce_def isTrigger_def)

text \<open>
  C7 as it is written, for every delay, fails at a delay of 2147483648, which the host
  runs as 1: a cancel 50 ms after the trigger call comes before the delay has elapsed,
  and the action has run already.
\<close>

theorem cancel_huge_delay_late:
  "(50::nat) < 2147483648
   \<and> target (run logCall 2147483648 [Trigger (7::nat), Wait 50, Cancel]
        (debounce logCall 2147483648 0 [])) = [7]"
  by (simp add: run_def deb_simps debounce_def logCall_def timerDelay_def)

text \<open>
  C10. A wait never changes \<open>timerId\<close>, and a trigger call sets it. So after a trigger
  call and a wait of at least the delay (\<open>timerDelay D\<close>, as the host runs it) the action
  has run once, no timer is pending, and \<open>timerId\<close> still holds the handle of the timer
  that fired. Clearing that handle changes nothing in the host. A cancel then resets
  \<open>timerId\<close> to null and changes nothing else: the effect of the execution stays and
  nothing runs. A trigger call then leaves that effect in place too, stores a new handle
  and sets exactly one timer, for the new arguments, which runs the action once more
  after a further delay and not before. In every owned state a trigger call leaves
  exactly one timer pending.
\<close>

theorem fired_handle_kept:
  assumes "owned d" and "timerDelay D \<le> w"
  shows "timerId (step func D (Wait v) d) = timerId d
         \<and> timerId (run func D [Trigger a, Wait w] d) = Some (nextHandle (env d))
         \<and> timers (env (run func D [Trigger a, Wait w] d)) = []
         \<and> target (run func D [Trigger a, Wait w] d) = func a (target d)
         \<and> clearTimeout (nextHandle (env d)) (env (run func D [Trigger a, Wait w] d))
             = env (run func D [Trigger a, Wait w] d)
         \<and> run func D [Trigger a, Wait w, Cancel] d
             = (run func D [Trigger a, Wait w] d)\<lparr>timerId := None\<rparr>
         \<and> timerId (run func D [Trigger a, Wait w, Cancel] d) = None
         \<and> target (run func D [Trigger a, Wait w, Cancel] d) = func a (target d)
         \<and> timers (env (run func D [Trigger a, Wait w, Cancel] d)) = []
         \<and> timerId (run func D [Trigger a, Wait w, Trigger b] d)
             = Some (Suc (nextHandle (env d)))
         \<and> target (run func D [Trigger a, Wait w, Trigger b] d) = func a (target d)
         \<and> map (\<lambda>entry. snd (snd entry))
               (timers (env (run func D [Trigger a, Wait w, Trigger b] d))) = [func b]
         \<and> target (run func D [Trigger a, Wait w, Trigger b, Wait u] d)
             = (if timerDelay D \<le> u then func b (func a (target d)) else func a (target d))
         \<and> length (timers (env (step func D (Trigger b) d))) = 1"
proof (intro conjI)
  let ?d1 = "step func D (Trigger a) d"
  let ?d2 = "step func D (Wait w) ?d1"
  have r2: "run func D [Trigger a, Wait w] d = ?d2" by (simp add: run_Cons run_Nil)
  have d1: "?d1 = d\<lparr>timerId := Some (nextHandle (env d)),
       env := (env d)\<lparr>nextHandle := Suc (nextHandle (env d)),
                     timers := [(nextHandle (env d), clock (env d) + timerDelay D, func a)]\<rparr>\<rparr>"
    using assms(1) by (rule step_Trigger)
  have "armed (timerDelay D) (func a) (target d) ?d1" using assms(1) by (rule armed_Trigger)
  then have "?d2 = ?d1\<lparr>env := (env ?d1)\<lparr>clock := clock (env ?d1) + w, timers := []\<rparr>,
                        target := func a (target d)\<rparr>"
    using assms(2) by (rule armed_Wait_fired)
  then have d2: "?d2 = d\<lparr>timerId := Some (nextHandle (env d)),
       env := (env d)\<lparr>clock := clock (env d) + w, nextHandle := Suc (nextHandle (env d)),
                     timers := []\<rparr>,
       target := func a (target d)\<rparr>"
    by (simp add: d1)
  have o2: "owned ?d2" using assms(1) by (intro owned_step)
  show "timerId (step func D (Wait v) d) = timerId d" by (rule step_Wait_timerId)
  show "timerId (run func D [Trigger a, Wait w] d) = Some (nextHandle (env d))"
    unfolding r2 by (subst d2) simp
  show "timers (env (run func D [Trigger a, Wait w] d)) = []"
    unfolding r2 by (subst d2) simp
  show "target (run func D [Trigger a, Wait w] d) = func a (target d)"
    unfolding r2 by (subst d2) simp
  show "clearTimeout (nextHandle (env d)) (env (run func D [Trigger a, Wait w] d))
             = env (run func D [Trigger a, Wait w] d)"
    unfolding r2 by (subst d2, subst d2) (simp add: clearTimeout_def)
  have r3c: "run func D [Trigger a, Wait w, Cancel] d = step func D Cancel ?d2"
    by (simp add: run_Cons run_Nil)
  have c: "step func D Cancel ?d2 = ?d2\<lparr>timerId := None, env := (env ?d2)\<lparr>timers := []\<rparr>\<rparr>"
    using o2 by (rule step_Cancel)
  have e2: "timers (env ?d2) = []" by (subst d2) simp
  show "run func D [Trigger a, Wait w, Cancel] d
             = (run func D [Trigger a, Wait w] d)\<lparr>timerId := None\<rparr>"
    unfolding r3c r2 c using e2 by simp
  show "timerId (run func D [Trigger a, Wait w, Cancel] d) = None"
    unfolding r3c c by simp
  show "target (run func D [Trigger a, Wait w, Cancel] d) = func a (target d)"
    unfolding r3c c by (simp add: d2)
  show "timers (env (run func D [Trigger a, Wait w, Cancel] d)) = []"
    unfolding r3c c by simp
  have r3t: "run func D [Trigger a, Wait w, Trigger b] d = step func D (Trigger b) ?d2"
    by (simp add: run_Cons run_Nil)
  have ar: "armed (timerDelay D) (func b) (target ?d2) (step func D (Trigger b) ?d2)"
    using o2 by (rule armed_Trigger)
  have t2: "target ?d2 = func a (target d)" by (subst d2) simp
  have n2: "nextHandle (env ?d2) = Suc (nextHandle (env d))" by (subst d2) simp
  show "timerId (run func D [Trigger a, Wait w, Trigger b] d)
             = Some (Suc (nextHandle (env d)))"
    unfolding r3t by (simp add: step_Trigger[OF o2] n2)
  show "target (run func D [Trigger a, Wait w, Trigger b] d) = func a (target d)"
    unfolding r3t using ar t2 by (auto simp: armed_def)
  show "map (\<lambda>entry. snd (snd entry))
            (timers (env (run func D [Trigger a, Wait w, Trigger b] d))) = [func b]"
    unfolding r3t using ar by (auto simp: armed_def)
  have r4: "run func D [Trigger a, Wait w, Trigger b, Wait u] d
              = step func D (Wait u) (step func D (Trigger b) ?d2)"
    by (simp add: run_Cons run_Nil)
  show "target (run func D [Trigger a, Wait w, Trigger b, Wait u] d)
             = (if timerDelay D \<le> u then func b (func a (target d)) else func a (target d))"
    unfolding r4 using ar by (simp add: armed_Wait(1) t2)
  show "length (timers (env (step func D (Trigger b) d))) = 1"
    using assms(1) by (simp add: step_Trigger)
qed

theorem fired_handle_kept_witness:
  "owned (debounce logCall 400 0 ([] :: nat list)) \<and> timerDelay 400 \<le> 400
   \<and> timerId (run logCall 400 [Trigger (1::nat), Wait 400] (debounce logCall 400 0 [])) = Some 1
   \<and> timers (env (run logCall 400 [Trigger (1::nat), Wait 400] (debounce logCall 400 0 []))) = []
   \<and> timerId (run logCall 400 [Trigger (1::nat), Wait 400, Cancel] (debounce logCall 400 0 []))
       = None
   \<and> target (run logCall 400 [Trigger (1::nat), Wait 400, Cancel] (debounce logCall 400 0 []))
       = [1]
   \<and> timerId (run logCall 400 [Trigger (1::nat), Wait 400, Trigger 2]
        (debounce logCall 400 0 [])) = Some 2
   \<and> target (run logCall 400 [Trigger (1::nat), Wait 400, Trigger 2] (debounce logCall 400 0 []))
       = [1]
   \<and> target (run logCall 400 [Trigger (1::nat), Wait 400, Trigger 2, Wait 400]
        (debounce logCall 400 0 [])) = [1, 2]"
  using fired_handle_kept [of "debounce logCall 400 0 ([] :: nat list)" 400 400 logCall 0 1 2 400]
  by (simp add: owned_def debounce_def logCall_def timerDelay_def)

section \<open>Properties of useFetchOnQueryChange\<close>

lemmas hook_eval =
  hookRun_def hookStep_def useFetchOnQueryChange_def mounted_def
  supersede_def settle_def resumeAction_def tryCatchFinally_def enterAction_def
  setData_def setLoading_def setLoaded_def setError_def
  Let_def debouncedFunction_def cancel_def setTimeout_def clearTimeout_def elapse_def isDue_def
  utf16_def timerDelay_def

lemma hookRun_Nil: "hookRun D [] k = k"
  by (simp add: hookRun_def)

lemma hookRun_Cons: "hookRun D (ev # evs) k = hookRun D evs (hookStep D ev k)"
  by (simp add: hookRun_def)

lemma hookRun_append: "hookRun D (xs @ ys) k = hookRun D ys (hookRun D xs k)"
  by (simp add: hookRun_def)

subsection \<open>The action\<close>

lemma enterAction_cells:
  "cells (enterAction q a) =
     (cells a)\<lparr>loaded := False, loading := (q \<noteq> []), data := None\<rparr>"
  by (simp add: enterAction_def setData_def setLoading_def setLoaded_def)


lemma resumeAction_eq:
  "resumeAction r vs =
     (None, (case r of
               Resolved response \<Rightarrow> vs\<lparr>data := Some response, error := None\<rparr>
             | Rejected err \<Rightarrow> vs\<lparr>error := Some err\<rparr>)\<lparr>loading := False, loaded := True\<rparr>)"
  by (cases r)
     (simp_all add: resumeAction_def tryCatchFinally_def setData_def setError_def
        setLoading_def setLoaded_def)



subsection \<open>Single steps of the hook\<close>

lemma tidy_mounted: "tidy mounted"
  by (simp add: tidy_def mounted_def)

lemma hook_Query:
  assumes "tidy k" and "deps k \<noteq> Some q"
  shows "hookStep D (Query q) k =
     k\<lparr>deps := Some q, debouncedFetch := Some (nextHandle (loop k)),
       loop := (loop k)\<lparr>nextHandle := Suc (nextHandle (loop k)),
                       timers := [(nextHandle (loop k), clock (loop k) + timerDelay D, enterAction q)]\<rparr>,
       page := supersede (page k)\<rparr>"
  using assms
  by (cases "deps k"; cases "debouncedFetch k")
     (auto simp: tidy_def hookStep_def useFetchOnQueryChange_def Let_def debouncedFunction_def
        cancel_def setTimeout_def clearTimeout_def)

lemma hook_Query_same: "deps k = Some q \<Longrightarrow> hookStep D (Query q) k = k"
  by (simp add: hookStep_def useFetchOnQueryChange_def)

lemma hook_Tick_idle:
  "timers (loop k) = [] \<Longrightarrow>
   hookStep D (Tick w) k = k\<lparr>loop := (loop k)\<lparr>clock := clock (loop k) + w\<rparr>\<rparr>"
  by (simp add: hookStep_def elapse_def isDue_def Let_def)

lemma hook_Tick_one:
  "timers (loop k) = [(t, due, cb)] \<Longrightarrow>
   hookStep D (Tick w) k =
     (if due \<le> clock (loop k) + w
      then k\<lparr>loop := (loop k)\<lparr>clock := clock (loop k) + w, timers := []\<rparr>, page := cb (page k)\<rparr>
      else k\<lparr>loop := (loop k)\<lparr>clock := clock (loop k) + w\<rparr>\<rparr>)"
  by (simp add: hookStep_def elapse_def isDue_def Let_def)

lemma hook_Settle: "hookStep D (Settle i r) k = k\<lparr>page := settle i r (page k)\<rparr>"
  by (simp add: hookStep_def)

lemma tidy_step: "tidy k \<Longrightarrow> tidy (hookStep D ev k)"
proof (cases ev)
  case (Query q)
  assume t: "tidy k"
  show ?thesis
  proof (cases "deps k = Some q")
    case True
    with t show ?thesis unfolding Query by (simp add: hook_Query_same)
  next
    case False
    with t show ?thesis unfolding Query by (simp add: hook_Query tidy_def)
  qed
next
  case (Tick w)
  assume "tidy k"
  then consider "timers (loop k) = []"
    | t due q where "timers (loop k) = [(t, due, enterAction q)]"
        "debouncedFetch k = Some t" "deps k = Some q"
    by (auto simp: tidy_def)
  then show ?thesis
  proof cases
    case 1
    then show ?thesis unfolding Tick by (simp add: hook_Tick_idle tidy_def)
  next
    case 2
    then show ?thesis unfolding Tick by (simp add: hook_Tick_one tidy_def)
  qed
next
  case (Settle i r)
  assume "tidy k"
  then show ?thesis unfolding Settle by (simp add: hook_Settle tidy_def)
qed

lemma tidy_run: "tidy k \<Longrightarrow> tidy (hookRun D evs k)"
  by (induction evs arbitrary: k) (simp_all add: hookRun_Nil hookRun_Cons tidy_step)

subsection \<open>What runs while the query string stays the same\<close>







text \<open>
  C3. On the empty query the action body sets \<open>loaded\<close> to false, \<open>data\<close> to null and
  \<open>loading\<close> to false and leaves \<open>error\<close> as it was, whatever the cells held before. It
  returns there: \<^verbatim>\<open>fetchData\<close> has not been called and no execution is left suspended.
\<close>

theorem empty_query_resets:
  "cells (enterAction [] a)
     = \<lparr>data = None, loading = False, loaded = False, error = error (cells a)\<rparr>
   \<and> requests (enterAction [] a) = requests a
   \<and> awaiting (enterAction [] a) = awaiting a"
  by (simp add: enterAction_def setData_def setLoading_def setLoaded_def)

text \<open>
  C5. When the promise of a suspended execution resolves with \<open>s\<close>, the cells right after
  are \<open>data = s\<close>, no error, \<open>loading\<close> false, \<open>loaded\<close> true, whatever they held when it
  resumed. In particular so for the action run on a non-empty query, from any state, with
  \<^verbatim>\<open>fetchData\<close> called on that query.
\<close>

theorem resolved_cycle_state:
  "(i < length (awaiting a) \<longrightarrow>
      cells (settle i (Resolved s) a)
        = \<lparr>data = Some s, loading = False, loaded = True, error = None\<rparr>)
   \<and> (q \<noteq> [] \<longrightarrow>
      requests (enterAction q b) = requests b @ [q]
      \<and> cells (settle (length (awaiting b)) (Resolved s) (enterAction q b))
        = \<lparr>data = Some s, loading = False, loaded = True, error = None\<rparr>)"
  by (simp add: settle_def resumeAction_eq enterAction_def)

theorem resolved_cycle_state_witness:
  "(0::nat) < length (awaiting (enterAction (utf16 ''ap'') (page mounted)))
   \<and> utf16 ''ap'' \<noteq> []
   \<and> cells (settle 0 (Resolved [(1::nat, utf16 ''Apple'')])
        (enterAction (utf16 ''ap'') (page (mounted :: ((nat \<times> jsstring) list, string) hook))))
       = \<lparr>data = Some [(1, utf16 ''Apple'')], loading = False, loaded = True, error = None\<rparr>"
  using resolved_cycle_state [of 0
      "enterAction (utf16 ''ap'') (page (mounted :: ((nat \<times> jsstring) list, string) hook))"
      "[(1::nat, utf16 ''Apple'')]" "utf16 ''ap''" "page mounted"]
  by (simp add: hook_eval)

subsection \<open>The cells in every reachable state\<close>

lemma same_account:
  assumes "settled a = settled b" and "cells a = cells b"
  shows "lastResponse a = lastResponse b" and "accounted a = accounted b"
proof -
  show l: "lastResponse a = lastResponse b" using assms(1) by (simp add: lastResponse_def)
  have "latest a = latest b" using assms(1) by (simp add: latest_def)
  with l assms(2) show "accounted a = accounted b"
    by (simp add: accounted_def follows_def split: option.splits outcome.splits)
qed

lemma coherent_enter: "coherent a \<Longrightarrow> coherent (enterAction q a)"
proof -
  assume c: "coherent a"
  have "escaped (enterAction q a) = escaped a" by (simp add: enterAction_def)
  with c show ?thesis by (simp add: coherent_def enterAction_cells exclusive_def)
qed

lemma settle_cells:
  assumes "i < length (awaiting a)"
  shows "cells (settle i (Resolved s) a)
           = \<lparr>data = Some s, loading = False, loaded = True, error = None\<rparr>"
    and "cells (settle i (Rejected e) a)
           = (cells a)\<lparr>error := Some e, loading := False, loaded := True\<rparr>"
    and "settled (settle i r a) = settled a @ [(snd (awaiting a ! i), r)]"
    and "escaped (settle i r a) = escaped a"
  using assms by (simp_all add: settle_def resumeAction_eq)

lemma coherent_settle:
  assumes "coherent a"
  shows "coherent (settle i r a)"
proof (cases "i < length (awaiting a)")
  case False
  with assms show ?thesis by (simp add: settle_def)
next
  case True
  let ?b = "settle i r a"
  have log: "settled ?b = settled a @ [(snd (awaiting a ! i), r)]"
    using True by (rule settle_cells(3))
  then have late: "latest ?b = Some r" by (simp add: latest_def)
  have known: "data (cells a) = None \<or> data (cells a) = lastResponse a"
    using assms by (simp add: coherent_def)
  have esc: "escaped ?b = []" using True assms by (simp add: settle_cells(4) coherent_def)
  show ?thesis
  proof (cases r)
    case (Resolved s)
    have c: "cells ?b = \<lparr>data = Some s, loading = False, loaded = True, error = None\<rparr>"
      unfolding Resolved using True by (rule settle_cells(1))
    have "lastResponse ?b = Some s"
      using log by (simp add: lastResponse_def Resolved)
    with c late esc Resolved show ?thesis
      by (simp add: coherent_def exclusive_def accounted_def follows_def)
  next
    case (Rejected e)
    have c: "cells ?b = (cells a)\<lparr>error := Some e, loading := False, loaded := True\<rparr>"
      unfolding Rejected using True by (rule settle_cells(2))
    have "lastResponse ?b = lastResponse a"
      using log by (simp add: lastResponse_def Rejected)
    with c late esc known Rejected show ?thesis
      by (simp add: coherent_def exclusive_def accounted_def follows_def)
  qed
qed

lemma coherent_supersede: "coherent a \<Longrightarrow> coherent (supersede a)"
proof -
  assume c: "coherent a"
  have s: "settled (supersede a) = settled a" "cells (supersede a) = cells a"
    by (simp_all add: supersede_def)
  have "escaped (supersede a) = escaped a" by (simp add: supersede_def)
  with c same_account[OF s] s(2) show ?thesis by (simp add: coherent_def)
qed

lemma coherent_step:
  assumes "tidy k" and "coherent (page k)"
  shows "coherent (page (hookStep D ev k))"
proof (cases ev)
  case (Query q)
  show ?thesis
  proof (cases "deps k = Some q")
    case True
    with assms show ?thesis unfolding Query by (simp add: hook_Query_same)
  next
    case False
    with assms show ?thesis unfolding Query by (simp add: hook_Query coherent_supersede)
  qed
next
  case (Tick w)
  from assms(1) consider "timers (loop k) = []"
    | t due q where "timers (loop k) = [(t, due, enterAction q)]"
    by (auto simp: tidy_def)
  then show ?thesis
  proof cases
    case 1
    with assms(2) show ?thesis unfolding Tick by (simp add: hook_Tick_idle)
  next
    case 2
    with assms(2) show ?thesis unfolding Tick by (simp add: hook_Tick_one coherent_enter)
  qed
next
  case (Settle i r)
  with assms(2) show ?thesis by (simp add: hook_Settle coherent_settle)
qed

lemma coherent_run:
  "tidy k \<Longrightarrow> coherent (page k) \<Longrightarrow> coherent (page (hookRun D evs k))"
  by (induction evs arbitrary: k) (simp_all add: hookRun_Nil hookRun_Cons tidy_step coherent_step)

lemma coherent_mounted: "coherent (page mounted)"
  by (simp add: coherent_def mounted_def exclusive_def)

subsection \<open>Data between the call of fetchData and a rejection\<close>

lemma absent_step:
  assumes "tidy k" and "data (cells (page k)) = None" and "\<not> isResolve ev"
  shows "data (cells (page (hookStep D ev k))) = None"
proof (cases ev)
  case (Query q)
  show ?thesis
  proof (cases "deps k = Some q")
    case True
    with assms(2) show ?thesis unfolding Query by (simp add: hook_Query_same)
  next
    case False
    with assms(1,2) show ?thesis unfolding Query by (simp add: hook_Query supersede_def)
  qed
next
  case (Tick w)
  from assms(1) consider "timers (loop k) = []"
    | t due q where "timers (loop k) = [(t, due, enterAction q)]"
    by (auto simp: tidy_def)
  then show ?thesis
  proof cases
    case 1
    with assms(2) show ?thesis unfolding Tick by (simp add: hook_Tick_idle)
  next
    case 2
    with assms(2) show ?thesis unfolding Tick by (simp add: hook_Tick_one enterAction_cells)
  qed
next
  case (Settle i r)
  with assms(3) obtain e where r: "r = Rejected e" by (cases r) (simp_all add: isResolve_def)
  show ?thesis
  proof (cases "i < length (awaiting (page k))")
    case True
    with assms(2) show ?thesis unfolding Settle r by (simp add: hook_Settle settle_cells(2))
  next
    case False
    with assms(2) show ?thesis unfolding Settle by (simp add: hook_Settle settle_def)
  qed
qed

lemma absent_run:
  assumes "tidy k" and "data (cells (page k)) = None" and "list_all (\<lambda>ev. \<not> isResolve ev) evs"
  shows "data (cells (page (hookRun D evs k))) = None"
  using assms
proof (induction evs arbitrary: k)
  case Nil
  then show ?case by (simp add: hookRun_Nil)
next
  case (Cons ev evs)
  from Cons.prems have "data (cells (page (hookStep D ev k))) = None"
    by (intro absent_step) simp_all
  moreover have "tidy (hookStep D ev k)" using Cons.prems(1) by (rule tidy_step)
  ultimately show ?case using Cons.IH Cons.prems(3) by (simp add: hookRun_Cons)
qed

lemma started_tick_absent:
  assumes "tidy k" and "started (page (hookStep D (Tick w) k)) = started (page k) @ [q]"
  shows "data (cells (page (hookStep D (Tick w) k))) = None"
proof -
  from assms(1) consider "timers (loop k) = []"
    | t due q' where "timers (loop k) = [(t, due, enterAction q')]"
    by (auto simp: tidy_def)
  then show ?thesis
  proof cases
    case 1
    with assms(2) show ?thesis by (simp add: hook_Tick_idle)
  next
    case 2
    show ?thesis
    proof (cases "due \<le> clock (loop k) + w")
      case True
      with 2 show ?thesis by (simp add: hook_Tick_one enterAction_cells)
    next
      case False
      with 2 assms(2) show ?thesis by (simp add: hook_Tick_one)
    qed
  qed
qed

text \<open>
  C4, as far as it holds. When the promise of a suspended execution rejects with \<open>e\<close>, the
  continuation completes without a pending error, and in no reachable state has an error
  left the action. The cells right after are the cells at the moment it resumed with
  \<open>error = e\<close>, \<open>loading\<close> false and \<open>loaded\<close> true: \<open>data\<close> is not touched. And \<open>data\<close> is
  null then whenever no promise has resolved since an action body last ran: take any
  history, a tick in which the action body runs for \<open>q\<close>, any events after it among which
  no promise resolves, and then the rejection of a suspended execution. In particular so
  for the action run on a non-empty query from any state with its own promise the next to
  settle.
\<close>

theorem rejected_cycle_state:
  "(i < length (awaiting a) \<longrightarrow>
      cells (settle i (Rejected e) a)
        = (cells a)\<lparr>error := Some e, loading := False, loaded := True\<rparr>
      \<and> escaped (settle i (Rejected e) a) = escaped a)
   \<and> fst (resumeAction (Rejected e) vs) = None
   \<and> (q \<noteq> [] \<longrightarrow>
      cells (settle (length (awaiting b)) (Rejected e) (enterAction q b))
        = \<lparr>data = None, loading = False, loaded = True, error = Some e\<rparr>)
   \<and> escaped (page (hookRun D history mounted)) = []
   \<and> (started (page (hookRun D (history @ [Tick w]) mounted))
         = started (page (hookRun D history mounted)) @ [q']
       \<and> list_all (\<lambda>ev. \<not> isResolve ev) between
       \<and> j < length (awaiting (page (hookRun D (history @ [Tick w] @ between) mounted)))
       \<longrightarrow>
         cells (page (hookRun D (history @ [Tick w] @ between @ [Settle j (Rejected e)]) mounted))
           = \<lparr>data = None, loading = False, loaded = True, error = Some e\<rparr>)"
proof (intro conjI impI)
  have "coherent (page (hookRun D history mounted))"
    using tidy_mounted coherent_mounted by (rule coherent_run)
  then show "escaped (page (hookRun D history mounted)) = []"
    by (simp add: coherent_def)
  show "fst (resumeAction (Rejected e) vs) = None" by (simp add: resumeAction_eq)
  show "cells (settle i (Rejected e) a)
        = (cells a)\<lparr>error := Some e, loading := False, loaded := True\<rparr>"
    if "i < length (awaiting a)" using that by (rule settle_cells(2))
  show "escaped (settle i (Rejected e) a) = escaped a"
    if "i < length (awaiting a)" using that by (rule settle_cells(4))
  show "cells (settle (length (awaiting b)) (Rejected e) (enterAction q b))
        = \<lparr>data = None, loading = False, loaded = True, error = Some e\<rparr>" if "q \<noteq> []"
  proof -
    have "length (awaiting b) < length (awaiting (enterAction q b))"
      using that by (simp add: enterAction_def)
    then show ?thesis by (simp add: settle_cells(2) enterAction_cells)
  qed
next
  assume h: "started (page (hookRun D (history @ [Tick w]) mounted))
         = started (page (hookRun D history mounted)) @ [q']
       \<and> list_all (\<lambda>ev. \<not> isResolve ev) between
       \<and> j < length (awaiting (page (hookRun D (history @ [Tick w] @ between) mounted)))"
  let ?k = "hookRun D history mounted"
  let ?k1 = "hookStep D (Tick w) ?k"
  let ?k2 = "hookRun D between ?k1"
  have e1: "hookRun D (history @ [Tick w]) mounted = ?k1"
    by (simp only: hookRun_append hookRun_Cons hookRun_Nil)
  have e2: "hookRun D (history @ [Tick w] @ between) mounted = ?k2"
    by (simp only: hookRun_append hookRun_Cons hookRun_Nil)
  have e3: "hookRun D (history @ [Tick w] @ between @ [Settle j (Rejected e)]) mounted
              = hookStep D (Settle j (Rejected e)) ?k2"
    by (simp only: hookRun_append hookRun_Cons hookRun_Nil)
  have t: "tidy ?k" using tidy_mounted by (rule tidy_run)
  then have t1: "tidy ?k1" by (rule tidy_step)
  from h have "started (page ?k1) = started (page ?k) @ [q']" unfolding e1 by simp
  with t have "data (cells (page ?k1)) = None" by (rule started_tick_absent)
  with t1 have "data (cells (page ?k2)) = None" using h by (intro absent_run) simp_all
  moreover from h have "j < length (awaiting (page ?k2))" unfolding e2 by simp
  ultimately show "cells (page (hookRun D (history @ [Tick w] @ between @ [Settle j (Rejected e)])
                      mounted))
           = \<lparr>data = None, loading = False, loaded = True, error = Some e\<rparr>"
    unfolding e3 by (simp add: hook_Settle settle_cells(2))
qed

theorem rejected_cycle_state_witness:
  "(0::nat) < length (awaiting (enterAction (utf16 ''ap'') (page mounted)))
   \<and> utf16 ''ap'' \<noteq> []
   \<and> started (page (hookRun 400 ([Query (utf16 ''a'')] @ [Tick 400])
        (mounted :: ((nat \<times> jsstring) list, string) hook)))
       = started (page (hookRun 400 [Query (utf16 ''a'')]
        (mounted :: ((nat \<times> jsstring) list, string) hook))) @ [utf16 ''a'']
   \<and> list_all (\<lambda>ev. \<not> isResolve ev)
        [Query (utf16 ''ap'') :: ((nat \<times> jsstring) list, string) event]
   \<and> (0::nat) < length (awaiting (page (hookRun 400
        ([Query (utf16 ''a'')] @ [Tick 400] @ [Query (utf16 ''ap'')])
        (mounted :: ((nat \<times> jsstring) list, string) hook))))
   \<and> cells (page (hookRun 400
        ([Query (utf16 ''a'')] @ [Tick 400] @ [Query (utf16 ''ap'')]
           @ [Settle 0 (Rejected ''network down'')])
        (mounted :: ((nat \<times> jsstring) list, string) hook)))
       = \<lparr>data = None, loading = False, loaded = True, error = Some ''network down''\<rparr>
   \<and> cells (settle 0 (Rejected ''network down'')
        (enterAction (utf16 ''ap'') (page (mounted :: ((nat \<times> jsstring) list, string) hook))))
       = \<lparr>data = None, loading = False, loaded = True, error = Some ''network down''\<rparr>"
  using rejected_cycle_state [of 0
      "enterAction (utf16 ''ap'') (page (mounted :: ((nat \<times> jsstring) list, string) hook))"
      "''network down''" "\<lparr>data = None, loading = False, loaded = False, error = None\<rparr>"
      "utf16 ''ap''" "page mounted" 400 "[Query (utf16 ''a'')]" 400 "utf16 ''a''"
      "[Query (utf16 ''ap'')]" 0]
  by (simp add: hook_eval isResolve_def)

text \<open>
  C4 as it is written fails when two fetches overlap. The query is "a" and its fetch is
  sent after 400 ms; the query changes to "ap" and that fetch is sent 400 ms later, the
  first still in flight. The first resolves, then the second rejects. The cycle of "ap" has
  run to its end with a rejection, and \<open>data\<close> holds the response to "a".
\<close>

theorem rejected_after_stale_result:
  "cells (page (hookRun 400
      [Query (utf16 ''a''), Tick 400, Query (utf16 ''ap''), Tick 400,
       Settle 0 (Resolved [(1::nat, utf16 ''Apple'')]), Settle 0 (Rejected ''network down'')]
      mounted))
     = \<lparr>data = Some [(1, utf16 ''Apple'')], loading = False, loaded = True,
        error = Some ''network down''\<rparr>
   \<and> requests (page (hookRun 400
      [Query (utf16 ''a''), Tick 400, Query (utf16 ''ap''), Tick 400,
       Settle 0 (Resolved [(1::nat, utf16 ''Apple'')]), Settle 0 (Rejected ''network down'')]
      mounted)) = [utf16 ''a'', utf16 ''ap'']
   \<and> settled (page (hookRun 400
      [Query (utf16 ''a''), Tick 400, Query (utf16 ''ap''), Tick 400,
       Settle 0 (Resolved [(1::nat, utf16 ''Apple'')]), Settle 0 (Rejected ''network down'')]
      mounted)) = [(True, Resolved [(1, utf16 ''Apple'')]), (False, Rejected ''network down'')]"
  by (simp add: hook_eval)

text \<open>
  C6, as far as it holds. In every reachable state \<open>loading\<close> and \<open>loaded\<close> are not both
  true. When \<open>loaded\<close> is true some execution has resumed, and the cells follow the one
  that resumed last, superseded or not: if it resolved, \<open>data\<close> is its response and
  \<open>error\<close> is null; if it rejected, \<open>error\<close> is its error and \<open>data\<close> is null or the
  response of the execution that resolved last. In every reachable state \<open>data\<close> is null
  or that last response.
\<close>

theorem stale_free_states:
  "exclusive (cells (page (hookRun D history mounted)))
   \<and> (loaded (cells (page (hookRun D history mounted))) \<longrightarrow>
        accounted (page (hookRun D history mounted)))
   \<and> (data (cells (page (hookRun D history mounted))) = None
        \<or> data (cells (page (hookRun D history mounted)))
            = lastResponse (page (hookRun D history mounted)))"
proof -
  have "coherent (page (hookRun D history mounted))"
    using tidy_mounted coherent_mounted by (rule coherent_run)
  then show ?thesis by (simp add: coherent_def)
qed

theorem stale_free_states_witness:
  "loaded (cells (page (hookRun 400
      [Query (utf16 ''a''), Tick 400, Query (utf16 ''ap''), Tick 400,
       Settle 0 (Resolved [(1::nat, utf16 ''Apple'')]), Settle 0 (Rejected ''network down'')]
      (mounted :: ((nat \<times> jsstring) list, string) hook))))
   \<and> accounted (page (hookRun 400
      [Query (utf16 ''a''), Tick 400, Query (utf16 ''ap''), Tick 400,
       Settle 0 (Resolved [(1::nat, utf16 ''Apple'')]), Settle 0 (Rejected ''network down'')]
      (mounted :: ((nat \<times> jsstring) list, string) hook)))
   \<and> latest (page (hookRun 400
      [Query (utf16 ''a''), Tick 400, Query (utf16 ''ap''), Tick 400,
       Settle 0 (Resolved [(1::nat, utf16 ''Apple'')]), Settle 0 (Rejected ''network down'')]
      (mounted :: ((nat \<times> jsstring) list, string) hook)))
     = Some (Rejected ''network down'')
   \<and> lastResponse (page (hookRun 400
      [Query (utf16 ''a''), Tick 400, Query (utf16 ''ap''), Tick 400,
       Settle 0 (Resolved [(1::nat, utf16 ''Apple'')]), Settle 0 (Rejected ''network down'')]
      (mounted :: ((nat \<times> jsstring) list, string) hook)))
     = Some [(1, utf16 ''Apple'')]
   \<and> cells (page (hookRun 400
      [Query (utf16 ''a''), Tick 400, Query (utf16 ''ap''), Tick 400,
       Settle 0 (Resolved [(1::nat, utf16 ''Apple'')]), Settle 0 (Rejected ''network down'')]
      (mounted :: ((nat \<times> jsstring) list, string) hook)))
     = \<lparr>data = Some [(1, utf16 ''Apple'')], loading = False, loaded = True,
        error = Some ''network down''\<rparr>"
  using stale_free_states [of 400
      "[Query (utf16 ''a''), Tick 400, Query (utf16 ''ap''), Tick 400,
        Settle 0 (Resolved [(1::nat, utf16 ''Apple'')]), Settle 0 (Rejected ''network down'')]
          :: ((nat \<times> jsstring) list, string) event list"]
  by (simp add: hook_eval latest_def lastResponse_def accounted_def follows_def)

text \<open>
  C6 as it is written fails when two fetches overlap and the older one resolves last. The
  fetch for "a" is sent after 400 ms; the query changes to "ap", which supersedes it, and
  the fetch for "ap" is sent 400 ms later. The fetch for "ap" resolves first, then the one
  for "a". Now \<open>loaded\<close> is true and \<open>data\<close> is the response to "a", while the last
  execution that resumed without having been superseded is the one for "ap".
\<close>

theorem stale_result_shown:
  "\<not> staleFree (page (hookRun 400
      [Query (utf16 ''a''), Tick 400, Query (utf16 ''ap''), Tick 400,
       Settle 1 (Resolved [(1::nat, utf16 ''Apple'')]),
       Settle 0 (Resolved [(1::nat, utf16 ''Apple''), (2, utf16 ''Banana'')])]
      (mounted :: ((nat \<times> jsstring) list, string) hook)))
   \<and> cells (page (hookRun 400
      [Query (utf16 ''a''), Tick 400, Query (utf16 ''ap''), Tick 400,
       Settle 1 (Resolved [(1::nat, utf16 ''Apple'')]),
       Settle 0 (Resolved [(1::nat, utf16 ''Apple''), (2, utf16 ''Banana'')])]
      (mounted :: ((nat \<times> jsstring) list, string) hook)))
     = \<lparr>data = Some [(1, utf16 ''Apple''), (2, utf16 ''Banana'')], loading = False,
        loaded = True, error = None\<rparr>
   \<and> honoured (page (hookRun 400
      [Query (utf16 ''a''), Tick 400, Query (utf16 ''ap''), Tick 400,
       Settle 1 (Resolved [(1::nat, utf16 ''Apple'')]),
       Settle 0 (Resolved [(1::nat, utf16 ''Apple''), (2, utf16 ''Banana'')])]
      (mounted :: ((nat \<times> jsstring) list, string) hook)))
     = Some (Resolved [(1, utf16 ''Apple'')])
   \<and> deps (hookRun 400
      [Query (utf16 ''a''), Tick 400, Query (utf16 ''ap''), Tick 400,
       Settle 1 (Resolved [(1::nat, utf16 ''Apple'')]),
       Settle 0 (Resolved [(1::nat, utf16 ''Apple''), (2, utf16 ''Banana'')])]
      (mounted :: ((nat \<times> jsstring) list, string) hook))
     = Some (utf16 ''ap'')"
  by (simp add: hook_eval reflects_def latest_def honoured_def mirrors_def staleFree_def)

end
